theory Spec2Isabelle
  imports Complex_Main "HOL-Library.Sublist" "HOL-Library.AList" "HOL-Library.Multiset"
    "HOL-Library.Log_Nat"
begin

section \<open>Strings\<close>

text \<open>
  Python strings are modelled as \<^typ>\<open>string\<close>; the model covers ASCII text, where one
  \<^typ>\<open>char\<close> is one code point.  \<open>str.lower()\<close> maps \<open>A..Z\<close> to \<open>a..z\<close> and
  leaves every other character alone.
\<close>

definition lower_char :: "char \<Rightarrow> char" where
  "lower_char c =
     (let n = (of_char c :: nat) in if 65 \<le> n \<and> n \<le> 90 then char_of (n + 32) else c)"

definition lower :: "string \<Rightarrow> string" where
  "lower s = map lower_char s"

text \<open>The operator \<open>a in b\<close> on strings: \<open>a\<close> occurs in \<open>b\<close> as a contiguous block.\<close>

fun str_in :: "string \<Rightarrow> string \<Rightarrow> bool" where
  "str_in sub [] = (sub = [])"
| "str_in sub (c # cs) = (prefix sub (c # cs) \<or> str_in sub cs)"

text \<open>
  \<open>str.split()\<close> without arguments: the maximal runs of non-whitespace characters.  The
  ASCII characters that Python counts as whitespace are 9..13, 28..31 and 32.
\<close>

definition is_space :: "char \<Rightarrow> bool" where
  "is_space c = (let n = (of_char c :: nat) in (9 \<le> n \<and> n \<le> 13) \<or> (28 \<le> n \<and> n \<le> 32))"

fun split_from :: "string \<Rightarrow> string \<Rightarrow> string list" where
  "split_from word [] = (if word = [] then [] else [word])"
| "split_from word (c # cs) =
     (if is_space c then (if word = [] then [] else [word]) @ split_from [] cs
      else split_from (word @ [c]) cs)"

definition split :: "string \<Rightarrow> string list" where
  "split s = split_from [] s"

text \<open>Decimal rendering of integers, as \<open>str(i)\<close> and \<open>f"{i}"\<close> give it.\<close>

definition digit_char :: "nat \<Rightarrow> char" where
  "digit_char d = ''0123456789'' ! d"

fun str_nat :: "nat \<Rightarrow> string" where
  "str_nat n = (if n < 10 then [digit_char n] else str_nat (n div 10) @ [digit_char (n mod 10)])"

declare str_nat.simps [simp del]

definition str_int :: "int \<Rightarrow> string" where
  "str_int i = (if i < 0 then ''-'' @ str_nat (nat (- i)) else str_nat (nat i))"

text \<open>Slices \<open>xs[:n]\<close> and \<open>xs[-n:]\<close> for an integer \<open>n\<close>, with Python's meaning of a
  negative bound (counted from the end) and its clamping.\<close>

definition slice_to :: "int \<Rightarrow> 'a list \<Rightarrow> 'a list" where
  "slice_to n xs = (if 0 \<le> n then take (nat n) xs else take (length xs - nat (- n)) xs)"

definition last_n :: "nat \<Rightarrow> 'a list \<Rightarrow> 'a list" where
  "last_n n xs = drop (length xs - n) xs"

section \<open>Match scorer\<close>

text \<open>
  \<open>fuzz_score(a, b)\<close> returns \<open>fuzz.partial_ratio(a.lower(), b.lower())\<close>.  The metric
  \<open>partial_ratio\<close> belongs to the rapidfuzz library and is a parameter \<open>pr\<close> of the model; it
  returns a float, and a finite float is a rational number.  The \<open>lru_cache\<close> around \<open>fuzz_score\<close> memoizes
  a function of its two arguments and does not change the value returned.
\<close>

type_synonym scorer = "string \<Rightarrow> string \<Rightarrow> rat"

definition fuzz_score :: "scorer \<Rightarrow> string \<Rightarrow> string \<Rightarrow> rat" where
  "fuzz_score pr a b = pr (lower a) (lower b)"

section \<open>Corpus documents and the document searcher\<close>

text \<open>A corpus is what \<open>json.load\<close> returns.  A dict keeps its items in insertion order.\<close>

datatype json =
    JNull
  | JBool bool
  | JNum rat
  | JStr string
  | JList "json list"
  | JDict "(string \<times> json) list"

text \<open>A raw match: score, path, matched payload, depth.\<close>

type_synonym match = "rat \<times> string \<times> json \<times> int"

definition key_path :: "string \<Rightarrow> string \<Rightarrow> string" where
  "key_path path key = (if path \<noteq> [] then path @ '' > '' @ key else key)"

definition index_path :: "string \<Rightarrow> nat \<Rightarrow> string" where
  "index_path path i = path @ ''['' @ str_nat i @ '']''"

text \<open>
  \<open>search_json\<close> with its two loops: \<open>search_items\<close> is the loop over the items of a dict,
  \<open>search_elems\<close> the loop over the enumerated elements of a list (\<open>i\<close> is the index of the
  next element).  Each returns what the loop appends to \<open>results\<close>, in order.
\<close>

function search_json :: "scorer \<Rightarrow> json \<Rightarrow> string \<Rightarrow> string \<Rightarrow> int \<Rightarrow> int \<Rightarrow> match list"
  and search_items :: "scorer \<Rightarrow> (string \<times> json) list \<Rightarrow> string \<Rightarrow> string \<Rightarrow> int \<Rightarrow> int \<Rightarrow> match list"
  and search_elems :: "scorer \<Rightarrow> json list \<Rightarrow> nat \<Rightarrow> string \<Rightarrow> string \<Rightarrow> int \<Rightarrow> int \<Rightarrow> match list"
where
  "search_json pr (JDict items) query path depth max_depth =
     (if depth > max_depth then [] else search_items pr items query path depth max_depth)"
| "search_json pr (JList xs) query path depth max_depth =
     (if depth > max_depth then [] else search_elems pr xs 0 query path depth max_depth)"
| "search_json pr (JStr s) query path depth max_depth =
     (if depth > max_depth then []
      else (let text_score = fuzz_score pr query s in
            if text_score > 75 then [(text_score + 10, path, JStr s, depth)] else []))"
| "search_json pr JNull query path depth max_depth = []"
| "search_json pr (JBool b) query path depth max_depth = []"
| "search_json pr (JNum x) query path depth max_depth = []"
| "search_items pr [] query path depth max_depth = []"
| "search_items pr ((key, value) # rest) query path depth max_depth =
     (let new_path = key_path path key;
          key_score = fuzz_score pr query key
      in (if key_score > 70 then [(key_score + 20, new_path, value, depth)] else [])
         @ search_json pr value query new_path (depth + 1) max_depth
         @ search_items pr rest query path depth max_depth)"
| "search_elems pr [] i query path depth max_depth = []"
| "search_elems pr (item # rest) i query path depth max_depth =
     search_json pr item query (index_path path i) depth max_depth
     @ search_elems pr rest (Suc i) query path depth max_depth"
  by pat_completeness auto
termination
  by (relation "measure (\<lambda>x. case x of
          Inl (pr, obj, query, path, depth, max_depth) \<Rightarrow> size obj
        | Inr (Inl (pr, items, query, path, depth, max_depth)) \<Rightarrow>
            size_list (size_prod (\<lambda>k. 0) size) items
        | Inr (Inr (pr, xs, i, query, path, depth, max_depth)) \<Rightarrow> size_list size xs)")
     auto

text \<open>The call with the default arguments \<open>path=""\<close>, \<open>depth=0\<close>, \<open>max_depth=6\<close>.\<close>

definition search_json_default :: "scorer \<Rightarrow> json \<Rightarrow> string \<Rightarrow> match list" where
  "search_json_default pr obj query = search_json pr obj query [] 0 6"

section \<open>Query expander\<close>

text \<open>The concept table: a dict from a concept phrase to its synonyms, in insertion order.\<close>

type_synonym concepts = "(string \<times> string list) list"

text \<open>The table \<open>load_standards\<close> falls back to when \<open>concepts.json\<close> cannot be read.\<close>

definition default_concepts :: concepts where
  "default_concepts =
    [(''scope 3'', [''scope 3'', ''indirect emissions'', ''value chain'']),
     (''scope 2'', [''scope 2'', ''purchased electricity'']),
     (''scope 1'', [''scope 1'', ''direct emissions'']),
     (''emissions'', [''emissions'', ''ghg'', ''carbon'', ''co2'']),
     (''biodiversity'', [''biodiversity'', ''ecosystem'', ''habitat'']),
     (''water'', [''water'', ''withdrawal'', ''consumption'']),
     (''waste'', [''waste'', ''recycling'', ''disposal'']),
     (''human rights'', [''human rights'', ''labor rights'']),
     (''diversity'', [''diversity'', ''inclusion'', ''equity'']),
     (''governance'', [''governance'', ''board'', ''ethics'']),
     (''risk'', [''risk'', ''management'', ''mitigation'']),
     (''supply chain'', [''supply chain'', ''procurement'', ''vendor''])]"

text \<open>The loop over the concept table and the loop over the words of the query.\<close>

fun add_synonyms :: "string \<Rightarrow> concepts \<Rightarrow> string list \<Rightarrow> string list" where
  "add_synonyms q [] expanded = expanded"
| "add_synonyms q ((concept, synonyms) # rest) expanded =
     add_synonyms q rest (if str_in concept q then expanded @ synonyms else expanded)"

fun add_words :: "string list \<Rightarrow> string list \<Rightarrow> string list" where
  "add_words [] expanded = expanded"
| "add_words (word # rest) expanded =
     add_words rest (if length word > 3 then expanded @ [word] else expanded)"

text \<open>The list \<open>expanded\<close> as it stands before the last line of \<open>expand_query\<close>.\<close>

definition expanded_terms :: "concepts \<Rightarrow> string \<Rightarrow> string list" where
  "expanded_terms CONCEPTS query =
     (let q = lower query;
          expanded = [q];
          expanded = add_synonyms q CONCEPTS expanded;
          expanded = (if str_in ''standard'' q \<or> str_in ''framework'' q \<or> str_in ''compare'' q
                      then expanded @ [''esrs'', ''gri'', ''sasb'', ''iso'', ''brsr'']
                      else expanded)
      in add_words (split q) expanded)"

text \<open>
  \<open>expand_query\<close> returns \<open>list(set(expanded))\<close>.  The order in which a Python set of
  strings is enumerated depends on the hashes of the strings, which CPython salts per
  process; it is the parameter \<open>list_set\<close> of the model.  \<open>set_listing\<close> says what every
  such enumeration does: each element of the list once, and nothing else.
\<close>

definition set_listing :: "(string list \<Rightarrow> string list) \<Rightarrow> bool" where
  "set_listing list_set = (\<forall>xs. distinct (list_set xs) \<and> set (list_set xs) = set xs)"

definition expand_query :: "(string list \<Rightarrow> string list) \<Rightarrow> concepts \<Rightarrow> string \<Rightarrow> string list" where
  "expand_query list_set CONCEPTS query = list_set (expanded_terms CONCEPTS query)"

section \<open>Result aggregator\<close>

text \<open>
  The scores are Python floats, that is IEEE 754 doubles; every finite double is a rational
  number, and an arithmetic operation on doubles returns the exact result rounded to the
  nearest double, ties to the even significand.  \<open>expo x\<close> is the exponent \<open>e\<close> with
  \<open>2^e \<le> |x| < 2^(e+1)\<close>, \<open>ulp x\<close> the spacing of the doubles around \<open>x\<close> (53
  significant bits, and \<open>2^-1074\<close> in the subnormal range), and \<open>to_double x\<close> the
  double nearest to \<open>x\<close>.  Overflow is not modelled: a result beyond the largest double
  (about \<open>1.8 * 10^308\<close>) is infinite in Python.
\<close>

definition round_even :: "rat \<Rightarrow> int" where
  "round_even x =
     (let n = \<lfloor>x\<rfloor>; d = x - of_int n
      in if d < 1 / 2 then n else if 1 / 2 < d then n + 1 else if even n then n else n + 1)"

definition expo :: "rat \<Rightarrow> int" where
  "expo x =
     (if 1 \<le> \<bar>x\<bar> then bitlen \<lfloor>\<bar>x\<bar>\<rfloor> - 1
      else - bitlen (\<lceil>1 / \<bar>x\<bar>\<rceil> - 1))"

definition ulp :: "rat \<Rightarrow> rat" where
  "ulp x = 2 powi (max (expo x - 52) (- 1074))"

definition to_double :: "rat \<Rightarrow> rat" where
  "to_double x = of_int (round_even (x / ulp x)) * ulp x"

text \<open>The operators \<open>*\<close> and \<open>/\<close> on floats.\<close>

definition fmul :: "rat \<Rightarrow> rat \<Rightarrow> rat" where
  "fmul a b = to_double (a * b)"

definition fdiv :: "rat \<Rightarrow> rat \<Rightarrow> rat" where
  "fdiv a b = to_double (a / b)"

text \<open>
  \<open>int(x)\<close> truncates towards zero.  \<open>normalize_score\<close> evaluates
  \<open>raw_score * 100 / 130\<close> from left to right in float arithmetic; the integers 100 and
  130 are converted to floats without loss.
\<close>

definition py_int :: "rat \<Rightarrow> int" where
  "py_int x = (if 0 \<le> x then \<lfloor>x\<rfloor> else \<lceil>x\<rceil>)"

definition normalize_score :: "rat \<Rightarrow> int" where
  "normalize_score raw_score = min 100 (max 0 (py_int (fdiv (fmul raw_score 100) 130)))"



text \<open>A ranked result: normalized score, path, content, depth, name of the standard.\<close>

type_synonym result = "int \<times> string \<times> json \<times> int \<times> string"

definition result_score :: "result \<Rightarrow> int" where
  "result_score r = fst r"

definition result_path :: "result \<Rightarrow> string" where
  "result_path r = fst (snd r)"

text \<open>The first loop of \<open>search_standard\<close>: \<open>all_results\<close> over the first two queries.\<close>

definition to_result :: "string \<Rightarrow> match \<Rightarrow> result" where
  "to_result standard_name m =
     (case m of (score, path, content, depth) \<Rightarrow>
        (normalize_score score, path, content, depth, standard_name))"

definition collect_results :: "scorer \<Rightarrow> json \<Rightarrow> string \<Rightarrow> string list \<Rightarrow> result list" where
  "collect_results pr corpus standard_name queries =
     concat (map (\<lambda>q. map (to_result standard_name) (search_json_default pr corpus q))
                 (take 2 queries))"

text \<open>
  The second loop: \<open>best_by_path\<close> is a dict, modelled as an association list in insertion
  order.  Assigning to a key that is present keeps its position; a new key goes last.
\<close>

type_synonym best = "(string \<times> (int \<times> json \<times> int \<times> string)) list"

definition keep_best :: "result \<Rightarrow> best \<Rightarrow> best" where
  "keep_best r best_by_path =
     (case r of (score, path, content, depth, std) \<Rightarrow>
        (case map_of best_by_path path of
           None \<Rightarrow> AList.update path (score, content, depth, std) best_by_path
         | Some b \<Rightarrow>
             if score > fst b then AList.update path (score, content, depth, std) best_by_path
             else best_by_path))"

definition dedup :: "result list \<Rightarrow> best" where
  "dedup all_results = fold keep_best all_results []"

definition best_items :: "best \<Rightarrow> result list" where
  "best_items best_by_path =
     map (\<lambda>(path, (score, content, depth, std)). (score, path, content, depth, std)) best_by_path"

text \<open>\<open>list.sort(key=..., reverse=True)\<close> is stable: a stable sort on the negated score.\<close>

definition sort_desc :: "result list \<Rightarrow> result list" where
  "sort_desc rs = sort_key (\<lambda>r. - result_score r) rs"

definition search_standard ::
  "(string list \<Rightarrow> string list) \<Rightarrow> scorer \<Rightarrow> (string \<rightharpoonup> json) \<Rightarrow> concepts \<Rightarrow>
   string \<Rightarrow> string \<Rightarrow> int \<Rightarrow> result list" where
  "search_standard list_set pr STANDARDS CONCEPTS standard_name query limit =
     (case STANDARDS standard_name of
        None \<Rightarrow> []
      | Some corpus \<Rightarrow>
          (let queries = expand_query list_set CONCEPTS query;
               all_results = collect_results pr corpus standard_name queries;
               best_by_path = dedup all_results;
               sorted_results = sort_desc (best_items best_by_path)
           in slice_to limit sorted_results))"

section \<open>Notions used to state the properties\<close>

text \<open>The keys and the strings of a document, in the order of the traversal.\<close>

function json_texts :: "json \<Rightarrow> string list"
  and items_texts :: "(string \<times> json) list \<Rightarrow> string list"
  and elems_texts :: "json list \<Rightarrow> string list"
where
  "json_texts (JDict items) = items_texts items"
| "json_texts (JList xs) = elems_texts xs"
| "json_texts (JStr s) = [s]"
| "json_texts JNull = []"
| "json_texts (JBool b) = []"
| "json_texts (JNum x) = []"
| "items_texts [] = []"
| "items_texts ((key, value) # rest) = key # json_texts value @ items_texts rest"
| "elems_texts [] = []"
| "elems_texts (item # rest) = json_texts item @ elems_texts rest"
  by pat_completeness auto
termination
  by (relation "measure (\<lambda>x. case x of
          Inl obj \<Rightarrow> size obj
        | Inr (Inl items) \<Rightarrow> size_list (size_prod (\<lambda>k. 0) size) items
        | Inr (Inr xs) \<Rightarrow> size_list size xs)")
     auto

text \<open>The position at which a path is first discovered in a list of results.\<close>

definition first_index :: "string \<Rightarrow> result list \<Rightarrow> nat" where
  "first_index p rs = length (takeWhile (\<lambda>r. result_path r \<noteq> p) rs)"

section \<open>Example parameters\<close>

text \<open>
  A scorer for running the model on examples: equal strings score 100, different strings 0.
\<close>

definition exact_ratio :: scorer where
  "exact_ratio a b = (if a = b then 100 else 0)"

text \<open>Two enumerations of a set of strings, one the reverse of the other.\<close>

definition listing_a :: "string list \<Rightarrow> string list" where
  "listing_a xs = remdups xs"

definition listing_b :: "string list \<Rightarrow> string list" where
  "listing_b xs = rev (remdups xs)"

section \<open>Telemetry buffer\<close>

text \<open>
  A row is the list of six strings that \<open>log_query\<close> builds.  The logger object is a
  record of its fields; \<open>sheet\<close> says whether the worksheet is there (the source holds the
  worksheet or \<open>None\<close>).  The two sinks are part of the state: \<open>sheet_rows\<close> are the rows
  appended to the worksheet, \<open>csv_lines\<close> the data lines written to the CSV log (the header
  line and the rotation of the file decide only in which file a line lands, and are left
  out).
\<close>

type_synonym row = "string list"

record logger =
  enabled :: bool
  sheet :: bool
  buffer :: "row list"
  buffer_size :: nat
  csv_fallback :: bool
  last_flush_time :: rat
  min_flush_interval :: rat
  flush_count :: nat
  sheet_rows :: "row list"
  csv_lines :: "string list"

text \<open>
  \<open>__init__\<close>: \<open>sheets_enabled\<close> is the configuration flag, \<open>has_sheet\<close> whether
  \<open>_initialize_sheet\<close> obtained the worksheet.
\<close>

definition new_logger :: "bool \<Rightarrow> bool \<Rightarrow> logger" where
  "new_logger sheets_enabled has_sheet =
     \<lparr>enabled = sheets_enabled, sheet = (sheets_enabled \<and> has_sheet), buffer = [],
      buffer_size = 5, csv_fallback = True, last_flush_time = 0, min_flush_interval = 5,
      flush_count = 0, sheet_rows = [], csv_lines = []\<rparr>"

definition make_row :: "string \<Rightarrow> string \<Rightarrow> string \<Rightarrow> string \<Rightarrow> int \<Rightarrow> string \<Rightarrow> row" where
  "make_row stamp query language framework confidence path =
     [stamp, take 80 query, language, take 20 framework, str_int confidence, take 30 path]"

text \<open>
  \<open>log_query\<close>: \<open>current_time\<close> is the value of \<open>time.time()\<close> and \<open>stamp\<close> the formatted
  \<open>datetime.now()\<close>.  The result is the new state and whether a flush thread was started.
\<close>

definition log_query ::
  "rat \<Rightarrow> string \<Rightarrow> string \<Rightarrow> string \<Rightarrow> string \<Rightarrow> int \<Rightarrow> string \<Rightarrow> logger \<Rightarrow> logger \<times> bool" where
  "log_query current_time stamp query language framework confidence path s =
     (if \<not> enabled s then (s, False)
      else
        (let time_since_last_flush = current_time - last_flush_time s;
             s1 = (if length (buffer s) > 50 then s\<lparr>buffer := last_n 25 (buffer s)\<rparr> else s);
             row = make_row stamp query language framework confidence path;
             s2 = s1\<lparr>buffer := buffer s1 @ [row]\<rparr>
         in if length (buffer s2) \<ge> buffer_size s2 \<and> time_since_last_flush \<ge> min_flush_interval s2
            then (s2\<lparr>last_flush_time := current_time\<rparr>, True)
            else (s2, False)))"

text \<open>\<open>_write_to_csv\<close> cleans every cell and writes one line per row.\<close>

definition clean_cell :: "string \<Rightarrow> string" where
  "clean_cell cell =
     take 100 (filter (\<lambda>c. c \<noteq> CHR 0x0D)
       (map (\<lambda>c. if c = CHR 0x0A then CHR '' '' else c)
         (map (\<lambda>c. if c = CHR '','' then CHR '';'' else c) cell)))"

fun join :: "string \<Rightarrow> string list \<Rightarrow> string" where
  "join sep [] = []"
| "join sep [x] = x"
| "join sep (x # y # ys) = x @ sep @ join sep (y # ys)"

definition csv_line :: "row \<Rightarrow> string" where
  "csv_line r = join '','' (map clean_cell r) @ [CHR 0x0A]"

text \<open>
  What the environment does to a write: the worksheet takes the whole batch or raises
  (\<open>primary_ok\<close>); the CSV write completes, or raises after \<open>n\<close> rows, which
  \<open>_write_to_csv\<close> swallows.
\<close>

datatype csv_result = CsvWritten | CsvFailed nat

definition write_to_csv :: "csv_result \<Rightarrow> row list \<Rightarrow> logger \<Rightarrow> logger" where
  "write_to_csv res rows s =
     (case res of
        CsvWritten \<Rightarrow> s\<lparr>csv_lines := csv_lines s @ map csv_line rows\<rparr>
      | CsvFailed n \<Rightarrow> s\<lparr>csv_lines := csv_lines s @ map csv_line (take n rows)\<rparr>)"

definition flush_buffer :: "bool \<Rightarrow> csv_result \<Rightarrow> logger \<Rightarrow> logger" where
  "flush_buffer primary_ok res s =
     (if buffer s = [] then s
      else
        (let buffer_to_write = buffer s;
             s1 = s\<lparr>buffer := []\<rparr>
         in if sheet s1 \<and> primary_ok
            then s1\<lparr>sheet_rows := sheet_rows s1 @ buffer_to_write,
                    flush_count := flush_count s1 + 1\<rparr>
            else
              (let s2 = (if sheet s1 then s1\<lparr>sheet := False\<rparr> else s1)
               in if csv_fallback s2 then write_to_csv res buffer_to_write s2 else s2)))"

text \<open>
  The life of the logger is a sequence of calls: \<open>log_query\<close> by the handlers and
  \<open>_flush_buffer\<close> by the timer thread or by a thread that \<open>log_query\<close> started.
\<close>

datatype event =
    Log rat string string string string int string
  | Flush bool csv_result

fun step :: "event \<Rightarrow> logger \<Rightarrow> logger" where
  "step (Log current_time stamp query language framework confidence path) s =
     fst (log_query current_time stamp query language framework confidence path s)"
| "step (Flush primary_ok res) s = flush_buffer primary_ok res s"

fun run :: "logger \<Rightarrow> event list \<Rightarrow> logger" where
  "run s [] = s"
| "run s (e # es) = run (step e s) es"

text \<open>The rows that the calls of \<open>log_query\<close> in a sequence of events build.\<close>

fun event_rows :: "event \<Rightarrow> row list" where
  "event_rows (Log current_time stamp query language framework confidence path) =
     [make_row stamp query language framework confidence path]"
| "event_rows (Flush primary_ok res) = []"

definition logged_rows :: "event list \<Rightarrow> row list" where
  "logged_rows evs = concat (map event_rows evs)"

section \<open>Normalized scores\<close>

lemma py_int_nonneg: "0 \<le> x \<Longrightarrow> py_int x = \<lfloor>x\<rfloor>"
  by (simp add: py_int_def)


lemma floor_le_round_even: "\<lfloor>x\<rfloor> \<le> round_even x"
  unfolding round_even_def Let_def by auto


lemma round_even_ge: "of_int m \<le> x \<Longrightarrow> m \<le> round_even x"
  using floor_le_round_even [of x] le_floor_iff [of m x] by linarith

lemma ulp_pos: "0 < ulp x"
  by (simp add: ulp_def)


lemma to_double_ge_multiple: "of_int m * ulp x \<le> x \<Longrightarrow> of_int m * ulp x \<le> to_double x"
proof -
  assume "of_int m * ulp x \<le> x"
  then have "of_int m \<le> x / ulp x"
    using ulp_pos [of x] by (simp add: pos_le_divide_eq)
  then have "m \<le> round_even (x / ulp x)"
    by (rule round_even_ge)
  then have "(of_int m :: rat) \<le> of_int (round_even (x / ulp x))"
    by simp
  then show ?thesis
    unfolding to_double_def using ulp_pos [of x] by (simp add: mult_right_mono)
qed


lemma to_double_nonneg: "0 \<le> x \<Longrightarrow> 0 \<le> to_double x"
  using to_double_ge_multiple [of 0 x] by simp






















section \<open>Telemetry buffer: bounded length\<close>

lemma log_query_buffer:
  "enabled s \<Longrightarrow> buffer (fst (log_query t st q l f c p s)) =
     (if length (buffer s) > 50 then last_n 25 (buffer s) else buffer s) @ [make_row st q l f c p]"
  by (simp add: log_query_def Let_def)

lemma log_query_disabled: "\<not> enabled s \<Longrightarrow> log_query t st q l f c p s = (s, False)"
  by (simp add: log_query_def)

lemma last_n_suffix: "suffix (last_n n xs) xs"
  by (simp add: last_n_def suffix_drop)

lemma length_last_n: "length (last_n n xs) = min n (length xs)"
  by (simp add: last_n_def)

lemma step_enabled: "enabled (step e s) = enabled s"
  by (cases e)
    (simp_all add: log_query_def flush_buffer_def write_to_csv_def Let_def split: csv_result.splits)

lemma step_buffer_bound: "length (buffer s) \<le> 51 \<Longrightarrow> length (buffer (step e s)) \<le> 51"
  by (cases e)
    (auto simp add: log_query_def flush_buffer_def write_to_csv_def last_n_def Let_def
      split: csv_result.splits)

lemma run_buffer_bound: "length (buffer s) \<le> 51 \<Longrightarrow> length (buffer (run s evs)) \<le> 51"
  by (induction evs arbitrary: s) (simp_all add: step_buffer_bound)

lemma run_append: "run s (xs @ ys) = run (run s xs) ys"
  by (induction xs arbitrary: s) simp_all

lemma run_enabled: "enabled (run s evs) = enabled s"
  by (induction evs arbitrary: s) (simp_all add: step_enabled del: step.simps)

lemma run_fill:
  "enabled s \<Longrightarrow> length (buffer s) + n \<le> 51 \<Longrightarrow>
   length (buffer (run s (replicate n (Log t st q l f c p)))) = length (buffer s) + n"
proof (induction n arbitrary: s)
  case 0
  then show ?case by simp
next
  case (Suc n)
  let ?s = "fst (log_query t st q l f c p s)"
  have en: "enabled ?s"
    using Suc.prems(1) step_enabled [of "Log t st q l f c p" s] by simp
  have len: "length (buffer ?s) = Suc (length (buffer s))"
    using Suc.prems by (simp add: log_query_buffer)
  show ?case
    using Suc.IH [OF en] Suc.prems(2) len by simp
qed

lemma run_replicate_Suc: "run s (replicate (Suc n) e) = step e (run s (replicate n e))"
proof -
  have "replicate (Suc n) e = replicate n e @ [e]"
    by (simp add: replicate_append_same)
  then show ?thesis
    by (simp only: run_append run.simps)
qed

lemma run_52:
  "length (buffer (run (new_logger True hs) (replicate 52 (Log t st q l f c p)))) = 26"
proof -
  let ?e = "Log t st q l f c p"
  let ?s = "run (new_logger True hs) (replicate 51 ?e)"
  have en: "enabled ?s"
    by (simp add: run_enabled new_logger_def)
  have len: "length (buffer ?s) = 51"
    using run_fill [of "new_logger True hs" 51 t st q l f c p] by (simp add: new_logger_def)
  have "(52::nat) = Suc 51"
    by simp
  then have "run (new_logger True hs) (replicate 52 ?e) = step ?e ?s"
    by (simp only: run_replicate_Suc)
  then show ?thesis
    using en len by (simp add: log_query_buffer length_last_n)
qed

section \<open>Flush\<close>

lemma flush_clears: "buffer (flush_buffer ok res s) = []"
  by (simp add: flush_buffer_def write_to_csv_def Let_def split: csv_result.splits)

lemma step_csv_fallback: "csv_fallback (step e s) = csv_fallback s"
  by (cases e)
    (simp_all add: log_query_def flush_buffer_def write_to_csv_def Let_def split: csv_result.splits)

lemma run_csv_fallback: "csv_fallback (run s evs) = csv_fallback s"
  by (induction evs arbitrary: s) (simp_all add: step_csv_fallback del: step.simps)

lemma step_no_sheet:
  "\<not> sheet s \<Longrightarrow> \<not> sheet (step e s) \<and> sheet_rows (step e s) = sheet_rows s"
  by (cases e)
    (simp_all add: log_query_def flush_buffer_def write_to_csv_def Let_def split: csv_result.splits)

lemma run_no_sheet:
  "\<not> sheet s \<Longrightarrow> \<not> sheet (run s evs) \<and> sheet_rows (run s evs) = sheet_rows s"
proof (induction evs arbitrary: s)
  case Nil
  then show ?case by simp
next
  case (Cons e evs)
  from step_no_sheet [OF Cons.prems, of e]
  have a: "\<not> sheet (step e s)" and b: "sheet_rows (step e s) = sheet_rows s"
    by blast+
  from Cons.IH [OF a] b show ?case by simp
qed

lemma flush_primary_failure:
  "sheet s \<Longrightarrow> buffer s \<noteq> [] \<Longrightarrow> csv_fallback s \<Longrightarrow>
   \<not> sheet (flush_buffer False res s) \<and>
   sheet_rows (flush_buffer False res s) = sheet_rows s \<and>
   csv_lines (flush_buffer False res s) =
     csv_lines s @ map csv_line (case res of CsvWritten \<Rightarrow> buffer s | CsvFailed n \<Rightarrow> take n (buffer s))"
  by (simp add: flush_buffer_def write_to_csv_def Let_def split: csv_result.splits)

lemma flush_no_sheet:
  "\<not> sheet s \<Longrightarrow> buffer s \<noteq> [] \<Longrightarrow> csv_fallback s \<Longrightarrow>
   csv_lines (flush_buffer ok res s) =
     csv_lines s @ map csv_line (case res of CsvWritten \<Rightarrow> buffer s | CsvFailed n \<Rightarrow> take n (buffer s))"
  by (simp add: flush_buffer_def write_to_csv_def Let_def split: csv_result.splits)

lemma mset_drop_subset: "mset (drop n xs) \<subseteq># mset xs"
  by (metis append_take_drop_id mset_append mset_subset_eq_add_right)

lemma mset_take_subset: "mset (take n xs) \<subseteq># mset xs"
  by (metis append_take_drop_id mset_append mset_subset_eq_add_left)

lemma step_sheet_once:
  "mset (sheet_rows (step e s)) + mset (buffer (step e s))
     \<subseteq># mset (sheet_rows s) + mset (buffer s) + mset (event_rows e)"
proof (cases e)
  case (Log t st q l f c p)
  have "mset (last_n 25 (buffer s)) \<subseteq># mset (buffer s)"
    by (simp add: last_n_def mset_drop_subset)
  then show ?thesis
    using Log by (auto simp add: log_query_def Let_def intro: subset_mset.add_mono)
next
  case (Flush ok res)
  then show ?thesis
    by (simp add: flush_buffer_def write_to_csv_def Let_def split: csv_result.splits)
qed

lemma step_csv_once:
  "mset (csv_lines (step e s)) + image_mset csv_line (mset (buffer (step e s)))
     \<subseteq># mset (csv_lines s) + image_mset csv_line (mset (buffer s))
         + image_mset csv_line (mset (event_rows e))"
proof (cases e)
  case (Log t st q l f c p)
  have "mset (last_n 25 (buffer s)) \<subseteq># mset (buffer s)"
    by (simp add: last_n_def mset_drop_subset)
  then have "image_mset csv_line (mset (last_n 25 (buffer s))) \<subseteq># image_mset csv_line (mset (buffer s))"
    by (rule image_mset_subseteq_mono)
  then show ?thesis
    using Log by (auto simp add: log_query_def Let_def intro: subset_mset.add_mono)
next
  case (Flush ok res)
  have "\<And>n. image_mset csv_line (mset (take n (buffer s))) \<subseteq># image_mset csv_line (mset (buffer s))"
    by (rule image_mset_subseteq_mono) (rule mset_take_subset)
  then show ?thesis
    using Flush
    by (simp add: flush_buffer_def write_to_csv_def Let_def split: csv_result.splits)
qed

lemma run_sheet_once:
  "mset (sheet_rows (run s evs)) + mset (buffer (run s evs))
     \<subseteq># mset (sheet_rows s) + mset (buffer s) + mset (logged_rows evs)"
proof (induction evs arbitrary: s)
  case Nil
  then show ?case by (simp add: logged_rows_def)
next
  case (Cons e evs)
  have "mset (sheet_rows (run (step e s) evs)) + mset (buffer (run (step e s) evs))
      \<subseteq># mset (sheet_rows (step e s)) + mset (buffer (step e s)) + mset (logged_rows evs)"
    by (rule Cons.IH)
  also have "\<dots> \<subseteq># mset (sheet_rows s) + mset (buffer s) + mset (event_rows e) + mset (logged_rows evs)"
    using step_sheet_once [of e s] by (simp only: subset_mset.add_right_mono)
  finally show ?case
    by (simp add: logged_rows_def ac_simps del: step.simps)
qed

lemma run_csv_once:
  "mset (csv_lines (run s evs)) + image_mset csv_line (mset (buffer (run s evs)))
     \<subseteq># mset (csv_lines s) + image_mset csv_line (mset (buffer s))
         + image_mset csv_line (mset (logged_rows evs))"
proof (induction evs arbitrary: s)
  case Nil
  then show ?case by (simp add: logged_rows_def)
next
  case (Cons e evs)
  have "mset (csv_lines (run (step e s) evs)) + image_mset csv_line (mset (buffer (run (step e s) evs)))
      \<subseteq># mset (csv_lines (step e s)) + image_mset csv_line (mset (buffer (step e s)))
          + image_mset csv_line (mset (logged_rows evs))"
    by (rule Cons.IH)
  also have "\<dots> \<subseteq># mset (csv_lines s) + image_mset csv_line (mset (buffer s))
         + image_mset csv_line (mset (event_rows e)) + image_mset csv_line (mset (logged_rows evs))"
    using step_csv_once [of e s] by (simp only: subset_mset.add_right_mono)
  finally show ?case
    by (simp add: logged_rows_def ac_simps del: step.simps)
qed

text \<open>
  C3 (as amended).  A call of \<open>log_query\<close> that finds more than 50 rows in the buffer keeps
  the 25 newest of them, in their order, and appends the new row behind them; a call that
  finds at most 50 rows appends and evicts nothing; a disabled logger is left as it is.  Hence
  the buffer never holds more than 51 rows, whatever calls of \<open>log_query\<close> and flushes
  follow one another, and 52 calls in a row on a fresh logger leave 26 rows.
\<close>

theorem log_query_eviction:
  "(enabled s \<longrightarrow>
      buffer (fst (log_query t st q l f c p s)) =
        (if length (buffer s) > 50 then last_n 25 (buffer s) else buffer s)
        @ [make_row st q l f c p])
   \<and> (\<not> enabled s \<longrightarrow> fst (log_query t st q l f c p s) = s)
   \<and> suffix (last_n 25 (buffer s)) (buffer s)
   \<and> length (last_n 25 (buffer s)) = min 25 (length (buffer s))
   \<and> (length (buffer s) \<le> 51 \<longrightarrow> length (buffer (run s evs)) \<le> 51)
   \<and> length (buffer (run (new_logger True hs) (replicate 52 (Log t st q l f c p)))) = 26"
  by (simp add: log_query_buffer log_query_disabled last_n_suffix length_last_n
      run_buffer_bound run_52)

theorem log_query_eviction_witness:
  "enabled (new_logger True False)
   \<and> length (buffer (new_logger True False)) \<le> 51
   \<and> buffer (fst (log_query 1700000000 ''2026-01-01 00:00:00'' ''water'' ''en'' ''GRI'' 92
         ''Water'' (new_logger True False)))
       = [[''2026-01-01 00:00:00'', ''water'', ''en'', ''GRI'', ''92'', ''Water'']]
   \<and> length (buffer (run (new_logger True False)
         [Log 1700000000 [] ''q'' ''en'' [] 0 [], Flush True CsvWritten])) \<le> 51"
proof -
  have s: "str_int 92 = ''92''"
    by code_simp
  show ?thesis
    using log_query_eviction [where s = "new_logger True False" and t = 1700000000
        and st = "''2026-01-01 00:00:00''" and q = "''water''" and l = "''en''"
        and f = "''GRI''" and c = 92 and p = "''Water''" and hs = False
        and evs = "[Log 1700000000 [] ''q'' ''en'' [] 0 [], Flush True CsvWritten]"]
    by (simp add: new_logger_def make_row_def s)
qed

text \<open>
  The claim as stated fails: 51 calls of \<open>log_query\<close> in a row on a fresh logger leave 51
  rows in the buffer, and 46 rows when the flush that the fifth call starts runs at once.
\<close>

theorem buffer_cap_counterexample:
  "\<not> length (buffer (run (new_logger True False)
        (replicate 51 (Log 1700000000 [] ''q'' ''en'' [] 0 [])))) \<le> 50
   \<and> \<not> length (buffer (run (new_logger True False)
        (replicate 5 (Log 1700000000 [] ''q'' ''en'' [] 0 []) @ [Flush False CsvWritten]
         @ replicate 46 (Log 1700000000 [] ''q'' ''en'' [] 0 [])))) \<le> 25"
proof -
  let ?e = "Log 1700000000 [] ''q'' ''en'' [] 0 []"
  have a: "length (buffer (run (new_logger True False) (replicate 51 ?e))) = 51"
    using run_fill [of "new_logger True False" 51] by (simp add: new_logger_def)
  let ?s = "run (new_logger True False) (replicate 5 ?e @ [Flush False CsvWritten])"
  have en: "enabled ?s"
    by (simp only: run_enabled) (simp add: new_logger_def)
  have emp: "buffer ?s = []"
    by (simp only: run_append run.simps step.simps flush_clears)
  have "length (buffer (run ?s (replicate 46 ?e))) = 46"
    using run_fill [OF en, of 46] emp by simp
  then have b: "length (buffer (run (new_logger True False)
        (replicate 5 ?e @ [Flush False CsvWritten] @ replicate 46 ?e))) = 46"
    by (simp only: run_append append_assoc [symmetric])
  show ?thesis
    using a b by simp
qed

text \<open>
  C4.  In every state that a fresh logger reaches, each row that \<open>log_query\<close> built has
  been written at most once to the worksheet and at most once to the CSV log.  A flush
  empties the buffer whatever the writes do.  A flush whose worksheet write fails on a
  non-empty buffer switches the worksheet off, leaves the worksheet as it was and hands the
  same batch to the CSV log; from a state without worksheet no later call writes to the
  worksheet or brings it back, and every later flush of a non-empty buffer goes to the CSV
  log.
\<close>

theorem flush_at_most_once:
  "(s = run (new_logger en hs) evs \<longrightarrow>
      mset (sheet_rows s) \<subseteq># mset (logged_rows evs)
      \<and> mset (csv_lines s) \<subseteq># image_mset csv_line (mset (logged_rows evs))
      \<and> csv_fallback s)
   \<and> buffer (flush_buffer ok res s) = []
   \<and> (sheet s \<and> buffer s \<noteq> [] \<and> csv_fallback s \<longrightarrow>
        \<not> sheet (flush_buffer False res s)
        \<and> sheet_rows (flush_buffer False res s) = sheet_rows s
        \<and> csv_lines (flush_buffer False res s) =
            csv_lines s @ map csv_line
              (case res of CsvWritten \<Rightarrow> buffer s | CsvFailed n \<Rightarrow> take n (buffer s)))
   \<and> (\<not> sheet s \<longrightarrow>
        \<not> sheet (run s later) \<and> sheet_rows (run s later) = sheet_rows s)
   \<and> (\<not> sheet s \<and> buffer s \<noteq> [] \<and> csv_fallback s \<longrightarrow>
        csv_lines (flush_buffer ok res s) =
            csv_lines s @ map csv_line
              (case res of CsvWritten \<Rightarrow> buffer s | CsvFailed n \<Rightarrow> take n (buffer s)))"
proof -
  have once: "mset (sheet_rows s) \<subseteq># mset (logged_rows evs)
      \<and> mset (csv_lines s) \<subseteq># image_mset csv_line (mset (logged_rows evs))
      \<and> csv_fallback s" if s: "s = run (new_logger en hs) evs"
  proof -
    have "mset (sheet_rows s) \<subseteq># mset (sheet_rows s) + mset (buffer s)"
      by simp
    also have "\<dots> \<subseteq># mset (logged_rows evs)"
      using run_sheet_once [of "new_logger en hs" evs] by (simp add: s new_logger_def)
    finally have a: "mset (sheet_rows s) \<subseteq># mset (logged_rows evs)" .
    have "mset (csv_lines s) \<subseteq># mset (csv_lines s) + image_mset csv_line (mset (buffer s))"
      by simp
    also have "\<dots> \<subseteq># image_mset csv_line (mset (logged_rows evs))"
      using run_csv_once [of "new_logger en hs" evs] by (simp add: s new_logger_def)
    finally have b: "mset (csv_lines s) \<subseteq># image_mset csv_line (mset (logged_rows evs))" .
    have c: "csv_fallback s"
      by (simp add: s run_csv_fallback new_logger_def)
    from a b c show ?thesis by simp
  qed
  show ?thesis
    using once flush_clears [of ok res s] flush_primary_failure [of s res]
      run_no_sheet [of s later] flush_no_sheet [of s ok res]
    by blast
qed

theorem flush_at_most_once_witness:
  "(let s1 = run (new_logger True True) [Log 1700000000 [] ''water'' ''en'' ''GRI'' 92 ''Water''];
        s2 = flush_buffer False CsvWritten s1
    in sheet s1 \<and> buffer s1 \<noteq> [] \<and> csv_fallback s1
       \<and> mset (sheet_rows s1)
           \<subseteq># mset (logged_rows [Log 1700000000 [] ''water'' ''en'' ''GRI'' 92 ''Water''])
       \<and> \<not> sheet s2 \<and> sheet_rows s2 = [] \<and> csv_lines s2 = map csv_line (buffer s1)
       \<and> sheet_rows (run s2 [Log 1700000030 [] ''waste'' ''en'' ''GRI'' 84 ''Waste'',
                                 Flush True CsvWritten]) = [])"
proof -
  let ?ev = "Log 1700000000 [] ''water'' ''en'' ''GRI'' 92 ''Water''"
  let ?s1 = "run (new_logger True True) [?ev]"
  let ?s2 = "flush_buffer False CsvWritten ?s1"
  have h: "sheet ?s1 \<and> buffer ?s1 \<noteq> [] \<and> csv_fallback ?s1 \<and> sheet_rows ?s1 = []
      \<and> csv_lines ?s1 = []"
    by (simp add: new_logger_def log_query_def Let_def)
  have a: "mset (sheet_rows ?s1) \<subseteq># mset (logged_rows [?ev])
      \<and> \<not> sheet ?s2 \<and> sheet_rows ?s2 = sheet_rows ?s1
      \<and> csv_lines ?s2 = csv_lines ?s1 @ map csv_line (buffer ?s1)"
    using h flush_at_most_once [where s = ?s1 and en = True and hs = True and evs = "[?ev]"
        and res = CsvWritten]
    by simp
  then have "\<not> sheet ?s2"
    by simp
  then have b: "sheet_rows (run ?s2 [Log 1700000030 [] ''waste'' ''en'' ''GRI'' 84 ''Waste'',
      Flush True CsvWritten]) = sheet_rows ?s2"
    using flush_at_most_once [where s = ?s2] by blast
  show ?thesis
    using h a b by (simp add: Let_def)
qed

section \<open>Document searcher\<close>

lemma search_items_concat:
  "search_items pr items query path depth max_depth =
     concat (map (\<lambda>(key, value).
        (if fuzz_score pr query key > 70
         then [(fuzz_score pr query key + 20, key_path path key, value, depth)] else [])
        @ search_json pr value query (key_path path key) (depth + 1) max_depth) items)"
  by (induction items) (auto simp add: Let_def)

lemma search_elems_concat:
  "search_elems pr xs i query path depth max_depth =
     concat (map (\<lambda>(j, item). search_json pr item query (index_path path j) depth max_depth)
       (enumerate i xs))"
  by (induction xs arbitrary: i) auto

lemma search_json_too_deep:
  "depth > max_depth \<Longrightarrow> search_json pr obj query path depth max_depth = []"
  by (cases obj) simp_all

text \<open>
  C2.  Beyond \<open>max_depth\<close> the searcher returns nothing.  Within it, a dict yields for each
  item, in order, a match for the key with 20 added to its score exactly when the score of the
  key exceeds 70, followed by the matches of the value searched one level deeper; a list
  yields the matches of its elements at the same depth, each under the path with its index; a
  string yields one match with 10 added exactly when its score exceeds 75; other scalars yield
  nothing.  The default \<open>max_depth\<close> is 6.
\<close>

theorem search_json_cases:
  "(depth > max_depth \<longrightarrow> search_json pr obj query path depth max_depth = [])
   \<and> (depth \<le> max_depth \<longrightarrow>
        search_json pr (JDict items) query path depth max_depth =
          concat (map (\<lambda>(key, value).
            (if fuzz_score pr query key > 70
             then [(fuzz_score pr query key + 20, key_path path key, value, depth)] else [])
            @ search_json pr value query (key_path path key) (depth + 1) max_depth) items)
        \<and> search_json pr (JList xs) query path depth max_depth =
          concat (map (\<lambda>(j, item). search_json pr item query (index_path path j) depth max_depth)
            (enumerate 0 xs))
        \<and> search_json pr (JStr s) query path depth max_depth =
          (if fuzz_score pr query s > 75
           then [(fuzz_score pr query s + 10, path, JStr s, depth)] else []))
   \<and> search_json pr JNull query path depth max_depth = []
   \<and> search_json pr (JBool b) query path depth max_depth = []
   \<and> search_json pr (JNum x) query path depth max_depth = []
   \<and> search_json_default pr obj query = search_json pr obj query [] 0 6"
  by (simp add: search_json_too_deep search_items_concat search_elems_concat
      search_json_default_def Let_def)

theorem search_json_cases_witness:
  "(0::int) \<le> 6 \<and> (7::int) > 6
   \<and> search_json exact_ratio
        (JDict [(''Emissions'', JDict [(''Scope 3'', JList [JStr ''value chain'', JStr ''SCOPE 3''])])])
        ''scope 3'' [] 0 6
      = [(120, ''Emissions > Scope 3'', JList [JStr ''value chain'', JStr ''SCOPE 3''], 1),
         (110, ''Emissions > Scope 3[1]'', JStr ''SCOPE 3'', 2)]
   \<and> search_json exact_ratio (JStr ''scope 3'') ''scope 3'' ''p'' 7 6 = []"
proof -
  have l: "lower ''Emissions'' = ''emissions''" "lower ''Scope 3'' = ''scope 3''"
    "lower ''scope 3'' = ''scope 3''" "lower ''value chain'' = ''value chain''"
    "lower ''SCOPE 3'' = ''scope 3''"
    by code_simp+
  have n: "str_nat 0 = ''0''" "str_nat (Suc 0) = ''1''"
    by code_simp+
  have a: "search_json exact_ratio (JStr ''scope 3'') ''scope 3'' ''p'' 7 6 = []"
    using search_json_cases [where depth = 7 and max_depth = 6] by simp
  show ?thesis
    using a search_json_cases [where depth = 0 and max_depth = 6 and pr = exact_ratio
        and query = "''scope 3''" and path = "[]"
        and items = "[(''Emissions'', JDict [(''Scope 3'', JList [JStr ''value chain'', JStr ''SCOPE 3''])])]"]
    by (simp add: fuzz_score_def exact_ratio_def l n key_path_def index_path_def)
qed

section \<open>Query expander: contents of the expansion\<close>

lemma str_in_sublist: "str_in a b \<longleftrightarrow> sublist a b"
  by (induction b) (simp_all add: sublist_Cons_right)

lemma lower_char_idem: "lower_char (lower_char c) = lower_char c"
  by (simp add: lower_char_def Let_def)

lemma lower_idem: "lower (lower s) = lower s"
  by (simp add: lower_def lower_char_idem)

lemma lower_append: "lower (a @ b) = lower a @ lower b"
  by (simp add: lower_def)

lemma sublist_lower: "sublist a b \<Longrightarrow> sublist (lower a) (lower b)"
  unfolding sublist_def by (metis lower_append)

lemma set_add_synonyms:
  "set (add_synonyms q cs expanded) =
     set expanded \<union> (\<Union>c \<in> {c \<in> set cs. str_in (fst c) q}. set (snd c))"
proof (induction cs arbitrary: expanded)
  case Nil
  then show ?case by simp
next
  case (Cons c cs)
  obtain concept synonyms where c: "c = (concept, synonyms)"
    by (cases c)
  show ?case
  proof (cases "str_in concept q")
    case True
    then show ?thesis
      by (auto simp add: c Cons.IH)
  next
    case False
    then show ?thesis
      by (auto simp add: c Cons.IH)
  qed
qed

lemma set_add_words:
  "set (add_words ws expanded) = set expanded \<union> {w \<in> set ws. length w > 3}"
  by (induction ws arbitrary: expanded) auto

lemma set_expanded_aux:
  "set (add_words ws (if t then add_synonyms q cs [q] @ names else add_synonyms q cs [q])) =
     {q} \<union> (\<Union>c \<in> {c \<in> set cs. str_in (fst c) q}. set (snd c))
     \<union> (if t then set names else {}) \<union> {w \<in> set ws. length w > 3}"
  by (auto simp add: set_add_words set_add_synonyms)

lemma set_expanded_terms:
  "set (expanded_terms CONCEPTS query) =
     {lower query}
     \<union> (\<Union>c \<in> {c \<in> set CONCEPTS. sublist (fst c) (lower query)}. set (snd c))
     \<union> (if sublist ''standard'' (lower query) \<or> sublist ''framework'' (lower query)
            \<or> sublist ''compare'' (lower query)
         then set [''esrs'', ''gri'', ''sasb'', ''iso'', ''brsr''] else {})
     \<union> {w \<in> set (split (lower query)). length w > 3}"
  unfolding expanded_terms_def Let_def
  by (simp only: set_expanded_aux str_in_sublist)

lemma lower_triggers:
  "lower ''standard'' = ''standard''" "lower ''framework'' = ''framework''"
  "lower ''compare'' = ''compare''"
  by code_simp+

lemma expanded_terms_lower: "expanded_terms CONCEPTS (lower query) = expanded_terms CONCEPTS query"
  by (simp only: expanded_terms_def lower_idem)

lemma set_listing_a: "set_listing listing_a"
  by (simp add: set_listing_def listing_a_def)

lemma set_listing_b: "set_listing listing_b"
  by (simp add: set_listing_def listing_b_def)

lemma set_expand_query:
  "set_listing list_set \<Longrightarrow>
   set (expand_query list_set CONCEPTS query) = set (expanded_terms CONCEPTS query)"
  by (simp add: expand_query_def set_listing_def)

text \<open>
  C8.  The variants of a query contain the lower-cased query, the synonyms of every concept
  phrase that occurs in the lower-cased query, the five corpus names in lower case when the
  query (as typed or lower-cased) contains one of the trigger words, and every word of the
  lower-cased query longer than 3 characters.
\<close>

theorem expand_query_contents:
  assumes "set_listing list_set"
  shows "lower query \<in> set (expand_query list_set CONCEPTS query)
    \<and> (\<forall>c \<in> set CONCEPTS.
          sublist (fst c) (lower query) \<longrightarrow>
          set (snd c) \<subseteq> set (expand_query list_set CONCEPTS query))
    \<and> ((\<exists>w \<in> set [''standard'', ''framework'', ''compare''].
            sublist w query \<or> sublist w (lower query))
          \<longrightarrow> set [''esrs'', ''gri'', ''sasb'', ''iso'', ''brsr'']
               \<subseteq> set (expand_query list_set CONCEPTS query))
    \<and> (\<forall>w \<in> set (split (lower query)).
          length w > 3 \<longrightarrow> w \<in> set (expand_query list_set CONCEPTS query))"
proof -
  let ?E = "set (expanded_terms CONCEPTS query)"
  let ?names = "set [''esrs'', ''gri'', ''sasb'', ''iso'', ''brsr'']"
  let ?t = "sublist ''standard'' (lower query) \<or> sublist ''framework'' (lower query)
            \<or> sublist ''compare'' (lower query)"
  have E: "?E = {lower query}
     \<union> (\<Union>c \<in> {c \<in> set CONCEPTS. sublist (fst c) (lower query)}. set (snd c))
     \<union> (if ?t then ?names else {})
     \<union> {w \<in> set (split (lower query)). length w > 3}"
    by (rule set_expanded_terms)
  have a: "lower query \<in> ?E"
    unfolding E by blast
  have b: "\<forall>c \<in> set CONCEPTS. sublist (fst c) (lower query) \<longrightarrow> set (snd c) \<subseteq> ?E"
    unfolding E by blast
  have c: "?names \<subseteq> ?E"
    if w: "\<exists>w \<in> set [''standard'', ''framework'', ''compare''].
            sublist w query \<or> sublist w (lower query)"
  proof -
    from w obtain w where m: "w \<in> set [''standard'', ''framework'', ''compare'']"
      and o: "sublist w query \<or> sublist w (lower query)"
      by blast
    from m have lw: "lower w = w"
      using lower_triggers by auto
    from o have "sublist w (lower query)"
      using sublist_lower [of w query] lw by auto
    with m have t: ?t
      by auto
    show ?thesis
      unfolding E using t by (simp only: if_True) blast
  qed
  have d: "\<forall>w \<in> set (split (lower query)). length w > 3 \<longrightarrow> w \<in> ?E"
    unfolding E by blast
  show ?thesis
    unfolding set_expand_query [OF assms] using a b c d by blast
qed

theorem expand_query_contents_witness:
  "set_listing listing_a
   \<and> (''water'', [''water'', ''withdrawal'', ''consumption'']) \<in> set default_concepts
   \<and> sublist ''water'' (lower ''Compare WATER use'')
   \<and> sublist ''compare'' (lower ''Compare WATER use'')
   \<and> split (lower ''Compare WATER use'') = [''compare'', ''water'', ''use'']
   \<and> lower ''Compare WATER use'' \<in> set (expand_query listing_a default_concepts ''Compare WATER use'')
   \<and> set [''water'', ''withdrawal'', ''consumption'']
      \<subseteq> set (expand_query listing_a default_concepts ''Compare WATER use'')
   \<and> set [''esrs'', ''gri'', ''sasb'', ''iso'', ''brsr'']
      \<subseteq> set (expand_query listing_a default_concepts ''Compare WATER use'')
   \<and> ''compare'' \<in> set (expand_query listing_a default_concepts ''Compare WATER use'')"
proof -
  let ?q = "''Compare WATER use''"
  let ?X = "set (expand_query listing_a default_concepts ?q)"
  have l: "lower ?q = ''compare water use''"
    by code_simp
  have s: "split (lower ?q) = [''compare'', ''water'', ''use'']"
    by code_simp
  have w: "sublist ''water'' (lower ?q)" "sublist ''compare'' (lower ?q)"
    unfolding l by (simp_all add: str_in_sublist [symmetric])
  have m: "(''water'', [''water'', ''withdrawal'', ''consumption'']) \<in> set default_concepts"
    by (simp add: default_concepts_def)
  note t = expand_query_contents [OF set_listing_a, of ?q default_concepts]
  from t have t1: "lower ?q \<in> ?X"
    by (rule conjunct1)
  from t m w(1) have t2: "set [''water'', ''withdrawal'', ''consumption''] \<subseteq> ?X"
    by fastforce
  have "\<exists>w \<in> set [''standard'', ''framework'', ''compare'']. sublist w ?q \<or> sublist w (lower ?q)"
    using w(2) by simp
  with t have t3: "set [''esrs'', ''gri'', ''sasb'', ''iso'', ''brsr''] \<subseteq> ?X"
    by blast
  have "''compare'' \<in> set (split (lower ?q)) \<and> length ''compare'' > 3"
    unfolding s by simp
  with t have t4: "''compare'' \<in> ?X"
    by blast
  show ?thesis
    using set_listing_a m w s t1 t2 t3 t4 by (intro conjI)
qed

text \<open>
  C10.  Searching for a query and for its lower-cased form gives the same ranked list:
  \<open>expand_query\<close> looks at the query only through its lower-cased form.
\<close>

theorem search_standard_case_insensitive:
  "search_standard list_set pr STANDARDS CONCEPTS standard_name query limit =
   search_standard list_set pr STANDARDS CONCEPTS standard_name (lower query) limit"
  by (simp only: search_standard_def expand_query_def expanded_terms_lower)

section \<open>Searches that find nothing\<close>

lemma search_json_no_match:
  "(\<forall>t \<in> set (json_texts obj). fuzz_score pr query t \<le> 70) \<Longrightarrow>
     search_json pr obj query path depth max_depth = []"
  "(\<forall>t \<in> set (items_texts items). fuzz_score pr query t \<le> 70) \<Longrightarrow>
     search_items pr items query path depth max_depth = []"
  "(\<forall>t \<in> set (elems_texts xs). fuzz_score pr query t \<le> 70) \<Longrightarrow>
     search_elems pr xs i query path depth max_depth = []"
  by (induction pr obj query path depth max_depth and pr items query path depth max_depth
      and pr xs i query path depth max_depth rule: search_json_search_items_search_elems.induct)
    (auto simp add: Let_def)

lemma singleton_listing:
  assumes "distinct xs" and "set xs = {a}"
  shows "xs = [a]"
proof (cases xs)
  case Nil
  then show ?thesis using assms by simp
next
  case (Cons x ys)
  with assms have x: "x = a" and "set ys \<subseteq> {a}" and "a \<notin> set ys"
    by auto
  then have "ys = []"
    by (cases ys) auto
  then show ?thesis
    using Cons x by simp
qed

lemma add_synonyms_empty_query:
  "[] \<notin> fst ` set cs \<Longrightarrow> add_synonyms [] cs expanded = expanded"
  by (induction cs arbitrary: expanded) auto

lemma expanded_terms_empty_query:
  "[] \<notin> fst ` set CONCEPTS \<Longrightarrow> expanded_terms CONCEPTS [] = [[]]"
  by (simp add: expanded_terms_def lower_def split_def add_synonyms_empty_query)

lemma expand_query_empty_query:
  "set_listing list_set \<Longrightarrow> [] \<notin> fst ` set CONCEPTS \<Longrightarrow> expand_query list_set CONCEPTS [] = [[]]"
  by (simp add: expand_query_def expanded_terms_empty_query set_listing_def singleton_listing)

lemma search_standard_unknown:
  "STANDARDS standard_name = None \<Longrightarrow>
   search_standard list_set pr STANDARDS CONCEPTS standard_name query limit = []"
  by (simp add: search_standard_def)

lemma search_standard_nothing_found:
  assumes "STANDARDS standard_name = Some corpus"
    and "\<forall>q \<in> set (take 2 (expand_query list_set CONCEPTS query)). search_json_default pr corpus q = []"
  shows "search_standard list_set pr STANDARDS CONCEPTS standard_name query limit = []"
proof -
  have "collect_results pr corpus standard_name (expand_query list_set CONCEPTS query) = []"
    using assms(2) by (simp add: collect_results_def)
  then show ?thesis
    using assms(1)
    by (simp add: search_standard_def dedup_def best_items_def sort_desc_def slice_to_def)
qed

text \<open>
  C9 (as amended).  For a name that is not in the standards mapping the result is the empty
  list.  For the empty query the result is the empty list when the concept table has no
  empty phrase and the scorer rates the empty query at most 70 against every key and every
  string of the corpus.
\<close>

theorem search_standard_empty:
  "(STANDARDS standard_name = None \<longrightarrow>
      search_standard list_set pr STANDARDS CONCEPTS standard_name query limit = [])
   \<and> (set_listing list_set \<and> [] \<notin> fst ` set CONCEPTS \<and> STANDARDS standard_name = Some corpus
       \<and> (\<forall>t \<in> set (json_texts corpus). pr [] (lower t) \<le> 70)
      \<longrightarrow> search_standard list_set pr STANDARDS CONCEPTS standard_name [] limit = [])"
proof -
  have "search_standard list_set pr STANDARDS CONCEPTS standard_name [] limit = []"
    if l: "set_listing list_set" and c: "[] \<notin> fst ` set CONCEPTS"
      and s: "STANDARDS standard_name = Some corpus"
      and t: "\<forall>t \<in> set (json_texts corpus). pr [] (lower t) \<le> 70"
  proof -
    have "\<forall>t \<in> set (json_texts corpus). fuzz_score pr [] t \<le> 70"
      using t by (simp add: fuzz_score_def lower_def)
    then have "search_json_default pr corpus [] = []"
      unfolding search_json_default_def by (rule search_json_no_match(1))
    then have "\<forall>q \<in> set (take 2 (expand_query list_set CONCEPTS [])). search_json_default pr corpus q = []"
      by (simp add: expand_query_empty_query [OF l c])
    with s show ?thesis
      by (rule search_standard_nothing_found)
  qed
  then show ?thesis
    using search_standard_unknown [of STANDARDS standard_name list_set pr CONCEPTS query limit]
    by blast
qed

lemma default_concepts_no_empty: "[] \<notin> fst ` set default_concepts"
  by (simp add: default_concepts_def)

theorem search_standard_empty_witness:
  "[''ISO'' \<mapsto> JDict [(''Water'', JStr ''withdrawal by source'')]] ''GRI'' = None
   \<and> search_standard listing_a exact_ratio [''ISO'' \<mapsto> JDict [(''Water'', JStr ''withdrawal by source'')]]
        default_concepts ''GRI'' ''water'' 3 = []
   \<and> set_listing listing_a \<and> [] \<notin> fst ` set default_concepts
   \<and> [''ISO'' \<mapsto> JDict [(''Water'', JStr ''withdrawal by source'')]] ''ISO''
       = Some (JDict [(''Water'', JStr ''withdrawal by source'')])
   \<and> json_texts (JDict [(''Water'', JStr ''withdrawal by source'')])
       = [''Water'', ''withdrawal by source'']
   \<and> exact_ratio [] (lower ''Water'') \<le> 70
   \<and> exact_ratio [] (lower ''withdrawal by source'') \<le> 70
   \<and> search_standard listing_a exact_ratio [''ISO'' \<mapsto> JDict [(''Water'', JStr ''withdrawal by source'')]]
        default_concepts ''ISO'' [] 3 = []"
proof -
  let ?S = "[''ISO'' \<mapsto> JDict [(''Water'', JStr ''withdrawal by source'')]]"
  have a: "?S ''GRI'' = None"
    by simp
  have b: "?S ''ISO'' = Some (JDict [(''Water'', JStr ''withdrawal by source'')])"
    by simp
  have c: "\<forall>t \<in> set (json_texts (JDict [(''Water'', JStr ''withdrawal by source'')])).
         exact_ratio [] (lower t) \<le> 70"
    by (simp add: exact_ratio_def lower_def)
  have d: "search_standard listing_a exact_ratio ?S default_concepts ''GRI'' ''water'' 3 = []"
    using search_standard_empty [where STANDARDS = ?S and standard_name = "''GRI''"
        and list_set = listing_a and pr = exact_ratio and CONCEPTS = default_concepts
        and query = "''water''" and limit = 3] a
    by blast
  have e: "search_standard listing_a exact_ratio ?S default_concepts ''ISO'' [] 3 = []"
    using search_standard_empty [where STANDARDS = ?S and standard_name = "''ISO''"
        and list_set = listing_a and pr = exact_ratio and CONCEPTS = default_concepts
        and corpus = "JDict [(''Water'', JStr ''withdrawal by source'')]" and limit = 3]
      set_listing_a default_concepts_no_empty b c
    by blast
  have f: "json_texts (JDict [(''Water'', JStr ''withdrawal by source'')])
       = [''Water'', ''withdrawal by source'']"
    by simp
  have g: "exact_ratio [] (lower ''Water'') \<le> 70"
    "exact_ratio [] (lower ''withdrawal by source'') \<le> 70"
    by (simp_all add: exact_ratio_def lower_def)
  show ?thesis
    using a b d e f g set_listing_a default_concepts_no_empty by (intro conjI)
qed

text \<open>
  The claim as stated fails for the empty query: with a scorer that rates two empty strings
  100, a corpus that holds an empty string is matched.
\<close>

theorem empty_query_counterexample:
  "search_standard listing_a exact_ratio [''ISO'' \<mapsto> JDict [(''k'', JStr [])]]
     default_concepts ''ISO'' [] 3 = [(84, ''k'', JStr [], 1, ''ISO'')]
   \<and> search_standard listing_a exact_ratio [''ISO'' \<mapsto> JDict [(''k'', JStr [])]]
     default_concepts ''ISO'' [] 3 \<noteq> []"
proof -
  have "search_standard listing_a exact_ratio [''ISO'' \<mapsto> JDict [(''k'', JStr [])]]
     default_concepts ''ISO'' [] 3 = [(84, ''k'', JStr [], 1, ''ISO'')]"
    by code_simp
  then show ?thesis
    by simp
qed

section \<open>Result aggregator: deduplication and ranking\<close>

lemma slice_to_take: "\<exists>k. slice_to n xs = take k xs"
  by (auto simp add: slice_to_def)

lemma length_slice_to: "0 \<le> n \<Longrightarrow> int (length (slice_to n xs)) \<le> n"
  by (simp add: slice_to_def)

lemma dedup_snoc: "dedup (xs @ [x]) = keep_best x (dedup xs)"
  by (simp add: dedup_def)

lemma keep_best_keys:
  "map fst (keep_best r B) =
     (if result_path r \<in> set (map fst B) then map fst B else map fst B @ [result_path r])"
proof (cases r)
  case (fields s p c d n)
  show ?thesis
  proof (cases "map_of B p")
    case None
    then have "p \<notin> set (map fst B)"
      by (simp add: map_of_eq_None_iff)
    then show ?thesis
      using None fields by (simp add: keep_best_def result_path_def update_keys)
  next
    case (Some b)
    then have "p \<in> set (map fst B)"
      by (metis map_of_eq_None_iff option.distinct(1) set_map)
    then show ?thesis
      using Some fields by (simp add: keep_best_def result_path_def update_keys)
  qed
qed

lemma map_of_keep_best:
  "map_of (keep_best (s, p, c, d, n) B) =
     (map_of B)(p \<mapsto> (case map_of B p of None \<Rightarrow> (s, c, d, n)
                          | Some b \<Rightarrow> if s > fst b then (s, c, d, n) else b))"
  by (auto simp add: keep_best_def update_conv' map_upd_triv split: option.splits)

lemma dedup_distinct: "distinct (map fst (dedup xs))"
  by (induction xs rule: rev_induct) (simp_all add: dedup_def keep_best_keys)

lemma dedup_keys: "set (map fst (dedup xs)) = result_path ` set xs"
  by (induction xs rule: rev_induct) (auto simp add: dedup_snoc keep_best_keys dedup_def)

lemma dedup_sound:
  "map_of (dedup xs) p = Some (s, c, d, n) \<Longrightarrow> (s, p, c, d, n) \<in> set xs"
proof (induction xs arbitrary: s c d n rule: rev_induct)
  case Nil
  then show ?case by (simp add: dedup_def)
next
  case (snoc x xs)
  obtain s' p' c' d' n' where x: "x = (s', p', c', d', n')"
    by (cases x)
  from snoc.prems snoc.IH show ?case
    unfolding dedup_snoc x map_of_keep_best
    by (cases "p = p'"; cases "map_of (dedup xs) p'") (auto split: if_splits)
qed

lemma dedup_max:
  "x \<in> set xs \<Longrightarrow>
   \<exists>v. map_of (dedup xs) (result_path x) = Some v \<and> result_score x \<le> fst v"
proof (induction xs rule: rev_induct)
  case Nil
  then show ?case by simp
next
  case (snoc y xs)
  obtain s' p' c' d' n' where y: "y = (s', p', c', d', n')"
    by (cases y)
  show ?case
  proof (cases "x = y")
    case True
    then show ?thesis
      unfolding dedup_snoc y map_of_keep_best
      by (cases "map_of (dedup xs) p'") (auto simp add: result_path_def result_score_def)
  next
    case False
    with snoc.prems have "x \<in> set xs"
      by simp
    from snoc.IH [OF this] obtain v
      where v: "map_of (dedup xs) (result_path x) = Some v" "result_score x \<le> fst v"
      by blast
    then show ?thesis
      unfolding dedup_snoc y map_of_keep_best
      by (cases "result_path x = p'") auto
  qed
qed


lemma first_index_seen:
  "p \<in> result_path ` set xs \<Longrightarrow>
   first_index p (xs @ ys) = first_index p xs \<and> first_index p xs < length xs"
  by (induction xs) (auto simp add: first_index_def)

lemma first_index_new:
  "p \<notin> result_path ` set xs \<Longrightarrow> first_index p (xs @ [x]) \<ge> length xs"
  by (induction xs) (auto simp add: first_index_def)

lemma dedup_order:
  "sorted_wrt (\<lambda>p q. first_index p xs < first_index q xs) (map fst (dedup xs))"
proof (induction xs rule: rev_induct)
  case Nil
  then show ?case by (simp add: dedup_def)
next
  case (snoc x xs)
  let ?K = "map fst (dedup xs)"
  have K: "set ?K = result_path ` set xs"
    by (rule dedup_keys)
  have seen: "first_index p (xs @ [x]) = first_index p xs \<and> first_index p xs < length xs"
    if "p \<in> set ?K" for p
    using that unfolding K by (rule first_index_seen)
  have old: "sorted_wrt (\<lambda>p q. first_index p (xs @ [x]) < first_index q (xs @ [x])) ?K"
  proof (rule sorted_wrt_mono_rel [OF _ snoc.IH])
    fix p q
    assume "p \<in> set ?K" "q \<in> set ?K" "first_index p xs < first_index q xs"
    then show "first_index p (xs @ [x]) < first_index q (xs @ [x])"
      using seen [of p] seen [of q] by simp
  qed
  show ?case
  proof (cases "result_path x \<in> set ?K")
    case True
    then show ?thesis
      using old by (simp add: dedup_snoc keep_best_keys)
  next
    case False
    then have "result_path x \<notin> result_path ` set xs"
      unfolding K .
    then have new: "length xs \<le> first_index (result_path x) (xs @ [x])"
      by (rule first_index_new)
    have "\<forall>p \<in> set ?K. first_index p (xs @ [x]) < first_index (result_path x) (xs @ [x])"
    proof
      fix p
      assume "p \<in> set ?K"
      then have "first_index p (xs @ [x]) < length xs"
        using seen [of p] by simp
      with new show "first_index p (xs @ [x]) < first_index (result_path x) (xs @ [x])"
        by simp
    qed
    then show ?thesis
      using old False by (simp add: dedup_snoc keep_best_keys sorted_wrt_append)
  qed
qed

lemma paths_best_items: "map result_path (best_items B) = map fst B"
  by (induction B) (auto simp add: best_items_def result_path_def)

lemma best_items_mem:
  "distinct (map fst B) \<Longrightarrow> r \<in> set (best_items B) \<Longrightarrow>
   map_of B (result_path r) = Some (result_score r, snd (snd r))"
  by (auto simp add: best_items_def result_path_def result_score_def)

lemma insort_key_lex:
  fixes f :: "'a \<Rightarrow> 'k::linorder"
  assumes "sorted_wrt (\<lambda>a b. f a < f b \<or> (f a = f b \<and> R a b)) ys"
    and "\<forall>y \<in> set ys. R x y"
  shows "sorted_wrt (\<lambda>a b. f a < f b \<or> (f a = f b \<and> R a b)) (insort_key f x ys)"
  using assms
proof (induction ys)
  case Nil
  then show ?case by simp
next
  case (Cons y ys)
  show ?case
  proof (cases "f x \<le> f y")
    case True
    have "\<forall>z \<in> set (y # ys). f x < f z \<or> (f x = f z \<and> R x z)"
    proof
      fix z
      assume z: "z \<in> set (y # ys)"
      then have "f y \<le> f z"
        using Cons.prems(1) by auto
      with True have "f x \<le> f z"
        by simp
      moreover have "R x z"
        using Cons.prems(2) z by blast
      ultimately show "f x < f z \<or> (f x = f z \<and> R x z)"
        by auto
    qed
    then show ?thesis
      using True Cons.prems(1) by simp
  next
    case False
    then have "f y < f x"
      by simp
    moreover have "sorted_wrt (\<lambda>a b. f a < f b \<or> (f a = f b \<and> R a b)) (insort_key f x ys)"
      using Cons by simp
    ultimately show ?thesis
      using False Cons.prems(1) by (auto simp add: set_insort_key)
  qed
qed

lemma sort_key_lex:
  fixes f :: "'a \<Rightarrow> 'k::linorder"
  shows "sorted_wrt R xs \<Longrightarrow>
    sorted_wrt (\<lambda>a b. f a < f b \<or> (f a = f b \<and> R a b)) (sort_key f xs)"
proof (induction xs)
  case Nil
  then show ?case by simp
next
  case (Cons x xs)
  then have "sorted_wrt (\<lambda>a b. f a < f b \<or> (f a = f b \<and> R a b)) (sort_key f xs)"
    and "\<forall>y \<in> set (sort_key f xs). R x y"
    by simp_all
  then show ?case
    by (simp add: insort_key_lex)
qed

lemma distinct_map_sort_key: "distinct (map g (sort_key f xs)) = distinct (map g xs)"
  by (simp add: distinct_map)

lemma ranking_lex:
  "sorted_wrt (\<lambda>a b. result_score a > result_score b
        \<or> (result_score a = result_score b
            \<and> first_index (result_path a) xs < first_index (result_path b) xs))
     (sort_desc (best_items (dedup xs)))"
proof -
  let ?R = "\<lambda>a b. first_index (result_path a) xs < first_index (result_path b) xs"
  have "sorted_wrt (\<lambda>p q. first_index p xs < first_index q xs)
      (map result_path (best_items (dedup xs)))"
    unfolding paths_best_items by (rule dedup_order)
  then have "sorted_wrt ?R (best_items (dedup xs))"
    by (simp only: sorted_wrt_map)
  then have "sorted_wrt (\<lambda>a b. - result_score a < - result_score b
        \<or> (- result_score a = - result_score b \<and> ?R a b))
     (sort_key (\<lambda>r. - result_score r) (best_items (dedup xs)))"
    by (rule sort_key_lex)
  then show ?thesis
    by (simp add: sort_desc_def)
qed

lemma ranking_best:
  assumes "r \<in> set (best_items (dedup xs))"
  shows "r \<in> set xs
    \<and> (\<forall>x \<in> set xs. result_path x = result_path r \<longrightarrow> result_score x \<le> result_score r)"
proof -
  obtain s p c d n where r: "r = (s, p, c, d, n)"
    by (cases r)
  have m: "map_of (dedup xs) p = Some (s, c, d, n)"
    using best_items_mem [OF dedup_distinct assms]
    by (simp add: r result_path_def result_score_def)
  then have "r \<in> set xs"
    unfolding r by (rule dedup_sound)
  moreover have "result_score x \<le> result_score r"
    if "x \<in> set xs" "result_path x = result_path r" for x
    using dedup_max [OF that(1)] that(2) m
    by (auto simp add: r result_path_def result_score_def)
  ultimately show ?thesis
    by blast
qed

text \<open>
  C1 (as amended).  For a name in the standards mapping and every query, the list returned
  has at most \<open>limit\<close> entries when \<open>limit\<close> is not negative; it is sorted by
  non-increasing score; no two entries have the same path; each entry is one of the
  collected results and no collected result with the same path has a higher score; and of
  two entries with equal scores the one whose path was discovered first comes first.
\<close>

theorem search_standard_ranked:
  assumes "STANDARDS standard_name = Some corpus"
  shows "(let all_results = collect_results pr corpus standard_name
                (expand_query list_set CONCEPTS query);
              res = search_standard list_set pr STANDARDS CONCEPTS standard_name query limit
          in (0 \<le> limit \<longrightarrow> int (length res) \<le> limit)
           \<and> sorted_wrt (\<lambda>a b. result_score a \<ge> result_score b) res
           \<and> distinct (map result_path res)
           \<and> (\<forall>r \<in> set res. r \<in> set all_results
                 \<and> (\<forall>x \<in> set all_results.
                       result_path x = result_path r \<longrightarrow> result_score x \<le> result_score r))
           \<and> sorted_wrt (\<lambda>a b. result_score a = result_score b \<longrightarrow>
                   first_index (result_path a) all_results
                     < first_index (result_path b) all_results) res)"
proof -
  define xs where "xs = collect_results pr corpus standard_name
      (expand_query list_set CONCEPTS query)"
  define ranked where "ranked = sort_desc (best_items (dedup xs))"
  define res where "res = search_standard list_set pr STANDARDS CONCEPTS standard_name query limit"
  have res: "res = slice_to limit ranked"
    using assms by (simp add: res_def ranked_def xs_def search_standard_def)
  obtain k where k: "res = take k ranked"
    using slice_to_take [of limit ranked] res by auto
  have "set ranked = set (best_items (dedup xs))"
    by (simp add: ranked_def sort_desc_def)
  moreover have "set (take k ranked) \<subseteq> set ranked"
    by (rule set_take_subset)
  ultimately have sub: "set res \<subseteq> set (best_items (dedup xs))"
    unfolding k by simp
  have lex: "sorted_wrt (\<lambda>a b. result_score a > result_score b
        \<or> (result_score a = result_score b
            \<and> first_index (result_path a) xs < first_index (result_path b) xs)) res"
    unfolding k ranked_def by (rule sorted_wrt_take) (rule ranking_lex)
  have a: "0 \<le> limit \<longrightarrow> int (length res) \<le> limit"
    unfolding res by (simp add: length_slice_to)
  have b: "sorted_wrt (\<lambda>a b. result_score a \<ge> result_score b) res"
    by (rule sorted_wrt_mono_rel [OF _ lex]) auto
  have "distinct (map result_path ranked)"
    unfolding ranked_def sort_desc_def distinct_map_sort_key paths_best_items
    by (rule dedup_distinct)
  then have c: "distinct (map result_path res)"
    unfolding k by (simp add: take_map [symmetric])
  have d: "\<forall>r \<in> set res. r \<in> set xs
      \<and> (\<forall>x \<in> set xs. result_path x = result_path r \<longrightarrow> result_score x \<le> result_score r)"
    using sub ranking_best [of _ xs] by blast
  have e: "sorted_wrt (\<lambda>a b. result_score a = result_score b \<longrightarrow>
        first_index (result_path a) xs < first_index (result_path b) xs) res"
    by (rule sorted_wrt_mono_rel [OF _ lex]) auto
  show ?thesis
    using a b c d e unfolding Let_def xs_def [symmetric] res_def [symmetric] by blast
qed

theorem search_standard_ranked_witness:
  "(let S = [''ISO'' \<mapsto> JDict [(''GHG'', JStr ''ghg''), (''ghg'', JDict [(''Ghg'', JStr ''x'')])]];
        res = search_standard listing_a exact_ratio S default_concepts ''ISO'' ''ghg'' 2
    in S ''ISO'' = Some (JDict [(''GHG'', JStr ''ghg''), (''ghg'', JDict [(''Ghg'', JStr ''x'')])])
       \<and> (0::int) \<le> 2
       \<and> res = [(92, ''GHG'', JStr ''ghg'', 0, ''ISO''),
                (92, ''ghg'', JDict [(''Ghg'', JStr ''x'')], 0, ''ISO'')]
       \<and> int (length res) \<le> 2
       \<and> distinct (map result_path res)
       \<and> sorted_wrt (\<lambda>a b. result_score a \<ge> result_score b) res)"
proof -
  let ?c = "JDict [(''GHG'', JStr ''ghg''), (''ghg'', JDict [(''Ghg'', JStr ''x'')])]"
  let ?S = "[''ISO'' \<mapsto> ?c]"
  let ?res = "search_standard listing_a exact_ratio ?S default_concepts ''ISO'' ''ghg'' 2"
  have h: "?S ''ISO'' = Some ?c"
    by simp
  have v: "?res = [(92, ''GHG'', JStr ''ghg'', 0, ''ISO''),
                (92, ''ghg'', JDict [(''Ghg'', JStr ''x'')], 0, ''ISO'')]"
    by code_simp
  from h search_standard_ranked [where STANDARDS = ?S and standard_name = "''ISO''"
      and corpus = ?c and pr = exact_ratio and list_set = listing_a
      and CONCEPTS = default_concepts and query = "''ghg''" and limit = 2]
  have "int (length ?res) \<le> 2 \<and> distinct (map result_path ?res)
      \<and> sorted_wrt (\<lambda>a b. result_score a \<ge> result_score b) ?res"
    unfolding Let_def by simp
  with h v show ?thesis
    unfolding Let_def by simp
qed

text \<open>
  The claim as stated fails for a negative limit: \<open>sorted_results[:-1]\<close> drops the last of
  three results and returns two.
\<close>

theorem negative_limit_counterexample:
  "search_standard listing_a exact_ratio
     [''ISO'' \<mapsto> JDict [(''GHG'', JStr ''ghg''), (''ghg'', JDict [(''Ghg'', JStr ''x'')])]]
     default_concepts ''ISO'' ''ghg'' (- 1)
   = [(92, ''GHG'', JStr ''ghg'', 0, ''ISO''),
      (92, ''ghg'', JDict [(''Ghg'', JStr ''x'')], 0, ''ISO'')]
   \<and> \<not> int (length (search_standard listing_a exact_ratio
     [''ISO'' \<mapsto> JDict [(''GHG'', JStr ''ghg''), (''ghg'', JDict [(''Ghg'', JStr ''x'')])]]
     default_concepts ''ISO'' ''ghg'' (- 1))) \<le> - 1"
proof -
  have "search_standard listing_a exact_ratio
     [''ISO'' \<mapsto> JDict [(''GHG'', JStr ''ghg''), (''ghg'', JDict [(''Ghg'', JStr ''x'')])]]
     default_concepts ''ISO'' ''ghg'' (- 1)
   = [(92, ''GHG'', JStr ''ghg'', 0, ''ISO''),
      (92, ''ghg'', JDict [(''Ghg'', JStr ''x'')], 0, ''ISO'')]"
    by code_simp
  then show ?thesis
    by simp
qed

text \<open>
  C5.  The result depends on the order in which the set of variants is enumerated: for the
  query \<open>water\<close> the variants are \<open>water\<close>, \<open>withdrawal\<close> and \<open>consumption\<close>, and only
  the first two of the enumeration are searched.  Two enumerations of the same set give
  different results on the same corpus and concept table.
\<close>

theorem search_standard_order_dependent:
  "set_listing listing_a \<and> set_listing listing_b
   \<and> set (expanded_terms default_concepts ''water'') = {''water'', ''withdrawal'', ''consumption''}
   \<and> search_standard listing_a exact_ratio [''ISO'' \<mapsto> JDict [(''withdrawal'', JStr ''x'')]]
        default_concepts ''ISO'' ''water'' 3 = [(92, ''withdrawal'', JStr ''x'', 0, ''ISO'')]
   \<and> search_standard listing_b exact_ratio [''ISO'' \<mapsto> JDict [(''withdrawal'', JStr ''x'')]]
        default_concepts ''ISO'' ''water'' 3 = []"
proof -
  have a: "expanded_terms default_concepts ''water''
      = [''water'', ''water'', ''withdrawal'', ''consumption'', ''water'']"
    by code_simp
  have b: "search_standard listing_a exact_ratio [''ISO'' \<mapsto> JDict [(''withdrawal'', JStr ''x'')]]
        default_concepts ''ISO'' ''water'' 3 = [(92, ''withdrawal'', JStr ''x'', 0, ''ISO'')]"
    by code_simp
  have c: "search_standard listing_b exact_ratio [''ISO'' \<mapsto> JDict [(''withdrawal'', JStr ''x'')]]
        default_concepts ''ISO'' ''water'' 3 = []"
    by code_simp
  have d: "set (expanded_terms default_concepts ''water'')
      = {''water'', ''withdrawal'', ''consumption''}"
    unfolding a by auto
  show ?thesis
    using set_listing_a set_listing_b b c d by (intro conjI)
qed

end
